theory Spec2Isabelle
  imports Main "HOL-Library.Sublist"
begin

section \<open>The MicroPython OS back-end: submitting code and finding the prompt\<close>

text \<open>
  This theory embeds the protocol functions of
  \<^verbatim>\<open>thonny/plugins/micropython/os_backend.py\<close>:
  \<^verbatim>\<open>_forward_output_until_active_prompt\<close>, \<^verbatim>\<open>_execute_with_consumer\<close>,
  \<^verbatim>\<open>_process_until_initial_prompt\<close> and \<^verbatim>\<open>_cmd_Run\<close>.

  Python \<^verbatim>\<open>bytes\<close> are lists of characters (a \<^typ>\<open>char\<close> is one byte).
  Names keep the source's spelling without the leading underscore.
\<close>

subsection \<open>Bytes, constants and the helpers on bytes\<close>

type_synonym bytes = string

text \<open>The two constants the file defines itself (lines 42 and 43).\<close>

definition PASTE_MODE_CMD :: bytes where
  "PASTE_MODE_CMD = [CHR 0x05]"

definition PASTE_MODE_LINE_PREFIX :: bytes where
  "PASTE_MODE_LINE_PREFIX = ''=== ''"

text \<open>
  Modelled from the spec: \<^verbatim>\<open>LF\<close> is imported from
  \<^verbatim>\<open>bare_metal_backend\<close>, a module that is not among the sources. The spec calls
  it the line-feed marker; a line feed is the single byte 0x0A.

  \<^verbatim>\<open>NORMAL_PROMPT\<close> and \<^verbatim>\<open>EOT\<close> are imported as well and the spec gives no value
  for them (``the literal prompt string'', ``the end-of-transmission control byte''), so
  every function below takes them as arguments of the same name.
\<close>

definition LF :: bytes where
  "LF = [CHR 0x0A]"

text \<open>Python's \<^verbatim>\<open>s.endswith(ending)\<close> on bytes.\<close>

definition endswith :: "bytes \<Rightarrow> bytes \<Rightarrow> bool" where
  "endswith s ending =
     (length ending \<le> length s \<and> drop (length s - length ending) s = ending)"

text \<open>
  Python's slice \<^verbatim>\<open>s[:-n]\<close> for \<open>n = len(...)\<close>: all but the last \<open>n\<close> bytes.
  For \<open>n = 0\<close> the slice is \<^verbatim>\<open>s[:0]\<close>, the empty string, and a slice never raises.
\<close>

definition without_last :: "nat \<Rightarrow> bytes \<Rightarrow> bytes" where
  "without_last n s = (if n = 0 then [] else take (length s - n) s)"

text \<open>
  Modelled from the spec: \<^verbatim>\<open>ends_overlap\<close> is imported from
  \<^verbatim>\<open>thonny.plugins.micropython.backend\<close>, which is not among the sources. The spec
  (section 4.2, step 3, and the glossary entry ``Overlap'') describes it: the tail of the
  left argument is a non-empty proper prefix of the right one.
\<close>

definition ends_overlap :: "bytes \<Rightarrow> bytes \<Rightarrow> bool" where
  "ends_overlap left right =
     list_ex (\<lambda>i. endswith left (take i right)) [1..<length right]"


subsection \<open>The back-end object, its connection and what can be observed\<close>

text \<open>
  The exceptions that can leave the modelled functions. \<open>ProtocolError\<close> carries the
  raw bytes observed; no function of the file constructs one.
\<close>

datatype error =
    TransportError
  | TimeoutError
  | ProtocolError bytes
  | UnicodeDecodeError
  | IndexError
  | ConnectionFailedException

type_synonym request = string

text \<open>
  The connection class is not among the sources, so the behaviour of the device behind
  it is an argument: the \<open>connection\<close> of a back-end is the list of outcomes of the
  reads that are still to come. A read either returns bytes (the empty string is a soft
  read's timeout) together with the control requests that were issued while it waited,
  or it raises. When the list is exhausted the device stays silent for ever.
\<close>

datatype reply =
    Returns bytes "request list"
  | Raises error

record backend =
  connection :: "reply list"
  command_queue :: "request list"
  original_welcome_text :: string

datatype read_kind =
    Soft_read_until
  | Soft_read
  | Read_until bytes

text \<open>
  Every function returns, next to its result and the new state, the events it caused in
  the order they happened. The callback \<^verbatim>\<open>output_consumer\<close> is not an argument of
  the model: a call \<^verbatim>\<open>output_consumer(data, stream_name)\<close> is the event
  \<open>Consumer data stream_name\<close>, and a caller that passes a particular callback runs it
  over these calls (\<open>run_consumer\<close> below). A read is recorded when it is called
  (\<open>Called\<close>); the requests issued while it waits and then what it returned
  (\<open>Received\<close>) or raised (\<open>Threw\<close>) follow.
\<close>

datatype event =
    Serviced request
  | Issued request
  | Called read_kind
  | Received bytes
  | Threw error
  | Written bytes
  | Closed
  | Created "string list"
  | Consumer bytes string
  | Program_output bytes string
  | Error_message "string list"
  | Hide_trailing_output string

fun consumer_calls :: "event list \<Rightarrow> (bytes \<times> string) list" where
  "consumer_calls [] = []"
| "consumer_calls (Consumer data stream_name # es) = (data, stream_name) # consumer_calls es"
| "consumer_calls (e # es) = consumer_calls es"

definition units :: "event list \<Rightarrow> bytes list" where
  "units es = map fst (consumer_calls es)"

fun received :: "event list \<Rightarrow> bytes list" where
  "received [] = []"
| "received (Received data # es) = data # received es"
| "received (e # es) = received es"

fun written :: "event list \<Rightarrow> bytes list" where
  "written [] = []"
| "written (Written data # es) = data # written es"
| "written (e # es) = written es"

fun program_outputs :: "event list \<Rightarrow> (bytes \<times> string) list" where
  "program_outputs [] = []"
| "program_outputs (Program_output data stream_name # es) =
     (data, stream_name) # program_outputs es"
| "program_outputs (e # es) = program_outputs es"

fun serviced :: "event list \<Rightarrow> request list" where
  "serviced [] = []"
| "serviced (Serviced r # es) = r # serviced es"
| "serviced (e # es) = serviced es"

fun read_calls :: "event list \<Rightarrow> read_kind list" where
  "read_calls [] = []"
| "read_calls (Called k # es) = k # read_calls es"
| "read_calls (e # es) = read_calls es"

subsection \<open>The operations of the connection and of the base class\<close>

text \<open>
  Modelled from the spec: \<^verbatim>\<open>soft_read_until(marker_set, timeout)\<close> ``returns whatever
  bytes are available within \<open>timeout\<close>, without requiring a marker match; returns an
  empty result on timeout (not an error)''. \<^verbatim>\<open>soft_read(1, timeout)\<close> is the same
  primitive with a byte count. Which bytes are available is what the device decides,
  that is the next scripted reply; the requests issued meanwhile join the command queue.
  The script is not constrained: it need not stop at a closer or at one byte, so every
  behaviour of a real connection is one of the scripts. A scripted \<open>Raises\<close> is a
  channel that broke.
\<close>

definition timed_read :: "read_kind \<Rightarrow> backend \<Rightarrow> (error + bytes) \<times> event list \<times> backend" where
  "timed_read k w =
     (case connection w of
        [] \<Rightarrow> (Inr [], [Called k, Received []], w)
      | Returns data rq # rest \<Rightarrow>
          (Inr data, Called k # map Issued rq @ [Received data],
           w\<lparr>connection := rest, command_queue := command_queue w @ rq\<rparr>)
      | Raises e # rest \<Rightarrow> (Inl e, [Called k, Threw e], w\<lparr>connection := rest\<rparr>))"

definition soft_read_until :: "backend \<Rightarrow> (error + bytes) \<times> event list \<times> backend" where
  "soft_read_until w = timed_read Soft_read_until w"

definition soft_read :: "backend \<Rightarrow> (error + bytes) \<times> event list \<times> backend" where
  "soft_read w = timed_read Soft_read w"

text \<open>
  Modelled from the spec: \<^verbatim>\<open>read_until(marker, timeout=None)\<close> ``blocks until
  \<open>marker\<close> appears in the stream or a hard timeout elapses'' and ``fails with
  \<open>TimeoutError\<close> or \<open>TransportError\<close>''. The result \<open>None\<close> is a call that never
  returns: the device is silent for ever and no timeout was given. The bytes a
  successful call returns are the scripted reply. Section 4.1 says that the result
  excludes the marker, while line 156 cuts \<open>len(NORMAL_PROMPT)\<close> bytes off its end;
  the model decides neither, and a statement that needs the marker at the end of the
  result says so.
\<close>

definition read_until :: "bytes \<Rightarrow> backend \<Rightarrow> (error + bytes) option \<times> event list \<times> backend" where
  "read_until marker w =
     (case connection w of
        [] \<Rightarrow> (None, [Called (Read_until marker)], w)
      | Returns data rq # rest \<Rightarrow>
          (Some (Inr data), Called (Read_until marker) # map Issued rq @ [Received data],
           w\<lparr>connection := rest, command_queue := command_queue w @ rq\<rparr>)
      | Raises e # rest \<Rightarrow>
          (Some (Inl e), [Called (Read_until marker), Threw e], w\<lparr>connection := rest\<rparr>))"

text \<open>
  Modelled from the spec: \<^verbatim>\<open>write(bytes)\<close> sends the bytes. A write on a broken
  channel is outside this model: the write succeeds and is recorded.
\<close>

definition connection_write :: "bytes \<Rightarrow> backend \<Rightarrow> (error + bytes) option \<times> event list \<times> backend" where
  "connection_write data w = (Some (Inr []), [Written data], w)"

text \<open>
  Modelled from the spec: \<^verbatim>\<open>_check_for_side_commands\<close> belongs to the base class,
  which is not among the sources. Section 4.4 (a): ``check for and service any pending
  ControlRequest''. Every queued request is serviced, in order, and the queue is empty
  afterwards.
\<close>

definition check_for_side_commands :: "backend \<Rightarrow> event list \<times> backend" where
  "check_for_side_commands w = (map Serviced (command_queue w), w\<lparr>command_queue := []\<rparr>)"

subsection \<open>\<^verbatim>\<open>_forward_output_until_active_prompt\<close> (lines 159 to 203)\<close>

text \<open>
  One pass through the body of the \<^verbatim>\<open>while True\<close> loop, lines 166 to 203. The
  regular expression of line 160 only tells \<^verbatim>\<open>soft_read_until\<close> where to stop and
  the two timeouts only bound the waits; neither is an argument here.
\<close>

datatype step =
    Continue bytes
  | Return bytes
  | Raise error

definition iteration :: "bytes \<Rightarrow> string \<Rightarrow> backend \<Rightarrow> bytes \<Rightarrow> step \<times> event list \<times> backend" where
  "iteration NORMAL_PROMPT stream_name w pending =
     (case check_for_side_commands w of (ev1, w1) \<Rightarrow>
      case soft_read_until w1 of
        (Inl e, ev2, w2) \<Rightarrow> (Raise e, ev1 @ ev2, w2)
      | (Inr new_data, ev2, w2) \<Rightarrow>
          if new_data = [] then (Continue pending, ev1 @ ev2, w2)
          else
            let pending = pending @ new_data in
            if endswith pending LF then
              (Continue [], ev1 @ ev2 @ [Consumer pending stream_name], w2)
            else if endswith pending NORMAL_PROMPT then
              (Return NORMAL_PROMPT,
               ev1 @ ev2 @ [Consumer (without_last (length NORMAL_PROMPT) pending) stream_name],
               w2)
            else if ends_overlap pending NORMAL_PROMPT then
              (case soft_read w2 of
                 (Inl e, ev3, w3) \<Rightarrow> (Raise e, ev1 @ ev2 @ ev3, w3)
               | (Inr follow_up, ev3, w3) \<Rightarrow>
                   if follow_up = [] then
                     (Continue [], ev1 @ ev2 @ ev3 @ [Consumer pending stream_name], w3)
                   else (Continue (pending @ follow_up), ev1 @ ev2 @ ev3, w3))
            else (Continue [], ev1 @ ev2 @ [Consumer pending stream_name], w2))"

text \<open>
  The loop has no exit but the \<^verbatim>\<open>return\<close> at the prompt and an exception, so it is
  run on fuel: one unit per pass. \<open>Unfinished pending\<close> says that the loop is still
  running after that many passes, with \<open>pending\<close> withheld.
\<close>

datatype loop_result =
    Returned bytes
  | Raised error
  | Unfinished bytes

fun forward_loop ::
  "bytes \<Rightarrow> string \<Rightarrow> nat \<Rightarrow> backend \<Rightarrow> bytes \<Rightarrow> loop_result \<times> event list \<times> backend" where
  "forward_loop NORMAL_PROMPT stream_name 0 w pending = (Unfinished pending, [], w)"
| "forward_loop NORMAL_PROMPT stream_name (Suc n) w pending =
     (case iteration NORMAL_PROMPT stream_name w pending of
        (Continue pending', evs, w') \<Rightarrow>
          (case forward_loop NORMAL_PROMPT stream_name n w' pending' of
             (r, evs', w'') \<Rightarrow> (r, evs @ evs', w''))
      | (Return prompt, evs, w') \<Rightarrow> (Returned prompt, evs, w')
      | (Raise e, evs, w') \<Rightarrow> (Raised e, evs, w'))"

definition forward_output_until_active_prompt ::
  "bytes \<Rightarrow> string \<Rightarrow> nat \<Rightarrow> backend \<Rightarrow> loop_result \<times> event list \<times> backend" where
  "forward_output_until_active_prompt NORMAL_PROMPT stream_name fuel w =
     forward_loop NORMAL_PROMPT stream_name fuel w []"

subsection \<open>\<^verbatim>\<open>_execute_with_consumer\<close> (lines 139 to 157)\<close>

datatype exec_result =
    Done
  | Failed error
  | Blocked

text \<open>
  Sequencing of the calls on the connection: an exception or a call that never returns
  ends the function there, as it does in Python; otherwise the next statement runs and
  its events follow.
\<close>

definition and_then ::
  "(error + 'a) option \<times> event list \<times> backend \<Rightarrow>
   ('a \<Rightarrow> backend \<Rightarrow> exec_result \<times> event list \<times> backend) \<Rightarrow>
   exec_result \<times> event list \<times> backend" where
  "and_then r k =
     (case r of
        (None, evs, w) \<Rightarrow> (Blocked, evs, w)
      | (Some (Inl e), evs, w) \<Rightarrow> (Failed e, evs, w)
      | (Some (Inr a), evs, w) \<Rightarrow>
          (case k a w of (res, evs', w') \<Rightarrow> (res, evs @ evs', w')))"

definition execute_with_consumer ::
  "bytes \<Rightarrow> bytes \<Rightarrow> bytes \<Rightarrow> backend \<Rightarrow> exec_result \<times> event list \<times> backend" where
  "execute_with_consumer EOT NORMAL_PROMPT script w =
     and_then (connection_write PASTE_MODE_CMD w) (\<lambda>_ w.
     and_then (read_until PASTE_MODE_LINE_PREFIX w) (\<lambda>_ w.
     and_then (connection_write (script @ ''#uuu'') w) (\<lambda>_ w.
     and_then (read_until ''#uuu'' w) (\<lambda>_ w.
     and_then (connection_write EOT w) (\<lambda>_ w.
     and_then (read_until [CHR 0x0A] w) (\<lambda>_ w.
     and_then (read_until NORMAL_PROMPT w) (\<lambda>r w.
       (Done, [Consumer (without_last (length NORMAL_PROMPT) r) ''stdout''], w))))))))"

text \<open>
  The sentinel of a submission, read off the run: what the second write (line 151) sends
  after the source.
\<close>

definition sentinel_sent :: "bytes \<Rightarrow> bytes \<Rightarrow> bytes \<Rightarrow> backend \<Rightarrow> bytes" where
  "sentinel_sent EOT NORMAL_PROMPT script w =
     (case written (fst (snd (execute_with_consumer EOT NORMAL_PROMPT script w))) of
        first # payload # others \<Rightarrow> drop (length script) payload
      | _ \<Rightarrow> [])"

subsection \<open>The two callers of the read loop\<close>







subsection \<open>Control requests along a run\<close>

text \<open>
  The requests that are still unserviced after a run of events, starting from the
  requests \<open>q\<close> that were unserviced before it.
\<close>

fun unserviced :: "request list \<Rightarrow> event list \<Rightarrow> request list" where
  "unserviced q [] = q"
| "unserviced q (Issued r # es) = unserviced (q @ [r]) es"
| "unserviced q (Serviced r # es) = unserviced (remove1 r q) es"
| "unserviced q (e # es) = unserviced q es"

text \<open>
  \<open>quiet_at critical q es\<close>: along \<open>es\<close>, no request is unserviced at the moment of an
  event that \<open>critical\<close> selects.
\<close>

fun quiet_at :: "(event \<Rightarrow> bool) \<Rightarrow> request list \<Rightarrow> event list \<Rightarrow> bool" where
  "quiet_at critical q [] = True"
| "quiet_at critical q (e # es) =
     ((if critical e then q = [] else True) \<and> quiet_at critical (unserviced q [e]) es)"

fun is_read :: "event \<Rightarrow> bool" where
  "is_read (Called k) = True"
| "is_read e = False"

fun is_soft_read_until :: "event \<Rightarrow> bool" where
  "is_soft_read_until (Called Soft_read_until) = True"
| "is_soft_read_until e = False"

fun issued :: "event list \<Rightarrow> request list" where
  "issued [] = []"
| "issued (Issued r # es) = r # issued es"
| "issued (e # es) = issued es"

subsection \<open>What a connection has in store\<close>

fun reply_bytes :: "reply \<Rightarrow> bytes" where
  "reply_bytes (Returns data rq) = data"
| "reply_bytes (Raises e) = []"

fun reply_requests :: "reply \<Rightarrow> request list" where
  "reply_requests (Returns data rq) = rq"
| "reply_requests (Raises e) = []"

text \<open>The reply of an idle device: a read that returns nothing.\<close>

fun idle_reply :: "reply \<Rightarrow> bool" where
  "idle_reply (Returns data rq) = (data = [])"
| "idle_reply (Raises e) = False"

text \<open>
  A back-end with nothing queued whose device will give the replies, used to state
  concrete runs.
\<close>

definition connected_to :: "reply list \<Rightarrow> backend" where
  "connected_to replies =
     \<lparr>connection = replies, command_queue = [], original_welcome_text = []\<rparr>"

section \<open>Auxiliary facts\<close>

subsection \<open>Bytes\<close>

lemma endswith_iff: "endswith s e \<longleftrightarrow> (\<exists>pre. s = pre @ e)"
proof
  assume "endswith s e"
  then have "s = take (length s - length e) s @ e"
    unfolding endswith_def by (metis append_take_drop_id)
  then show "\<exists>pre. s = pre @ e" ..
next
  assume "\<exists>pre. s = pre @ e"
  then show "endswith s e" unfolding endswith_def by auto
qed

lemma without_last_append: "e \<noteq> [] \<Longrightarrow> without_last (length e) (pre @ e) = pre"
  by (simp add: without_last_def)

lemma without_last_endswith:
  assumes "endswith s e" and "e \<noteq> []"
  shows "without_last (length e) s @ e = s"
proof -
  from assms(1) obtain pre where "s = pre @ e" by (auto simp: endswith_iff)
  with assms(2) show ?thesis by (simp add: without_last_append)
qed

lemma consumer_calls_append: "consumer_calls (es @ fs) = consumer_calls es @ consumer_calls fs"
  by (induction es rule: consumer_calls.induct) simp_all

lemma units_append: "units (es @ fs) = units es @ units fs"
  by (simp add: units_def consumer_calls_append)

lemma received_append: "received (es @ fs) = received es @ received fs"
  by (induction es rule: received.induct) simp_all

lemma consumer_calls_Serviced: "consumer_calls (map Serviced q) = []"
  by (induction q) simp_all

lemma consumer_calls_Issued: "consumer_calls (map Issued q) = []"
  by (induction q) simp_all

lemma received_Serviced: "received (map Serviced q) = []"
  by (induction q) simp_all

lemma received_Issued: "received (map Issued q) = []"
  by (induction q) simp_all

lemma units_simps:
  "units [] = []"
  "units (Consumer d sn # es) = d # units es"
  "units (Called k # es) = units es"
  "units (Received d # es) = units es"
  "units (Threw e # es) = units es"
  "units (map Serviced q) = []"
  "units (map Issued q) = []"
  by (simp_all add: units_def consumer_calls_Serviced consumer_calls_Issued)

lemma timed_read_Inr:
  assumes "timed_read k w = (Inr d, evs, w')"
  shows "units evs = [] \<and> received evs = [d]"
  using assms unfolding timed_read_def
  by (auto split: list.splits reply.splits simp: units_simps units_append received_append received_Issued)

lemma timed_read_Inl:
  assumes "timed_read k w = (Inl e, evs, w')"
  shows "units evs = [] \<and> received evs = []"
  using assms unfolding timed_read_def
  by (auto split: list.splits reply.splits simp: units_simps)

lemma check_units: "check_for_side_commands w = (evs, w') \<Longrightarrow> units evs = [] \<and> received evs = []"
  unfolding check_for_side_commands_def by (auto simp: units_simps received_Serviced)

lemma iteration_accounts:
  assumes "iteration P sn w pending = (st, evs, w')" and "P \<noteq> []"
  shows "case st of
           Continue p' \<Rightarrow> concat (units evs) @ p' = pending @ concat (received evs)
         | Return p \<Rightarrow> p = P \<and> concat (units evs) @ P = pending @ concat (received evs)
         | Raise e \<Rightarrow> units evs = []"
proof -
  obtain ev1 w1 where c: "check_for_side_commands w = (ev1, w1)" by (cases "check_for_side_commands w")
  obtain r ev2 w2 where s: "soft_read_until w1 = (r, ev2, w2)" by (cases "soft_read_until w1") 
  obtain r3 ev3 w3 where f: "soft_read w2 = (r3, ev3, w3)" by (cases "soft_read w2") 
  note c1 = check_units[OF c]
  show ?thesis
  proof (cases r)
    case (Inl e)
    with s have "units ev2 = []" using timed_read_Inl unfolding soft_read_until_def by blast
    with assms c s Inl c1 show ?thesis by (auto simp: iteration_def units_append)
  next
    case (Inr d)
    with s have r2: "units ev2 = []" "received ev2 = [d]" 
      using timed_read_Inr unfolding soft_read_until_def by blast+
    show ?thesis
    proof (cases r3)
      case (Inl e)
      with f have "units ev3 = []" using timed_read_Inl unfolding soft_read_def by blast
      with assms c s f Inr Inl c1 r2 show ?thesis
        by (auto simp: iteration_def units_append received_append units_simps Let_def without_last_endswith split: if_splits)
    next
      case (Inr d3)
      with f have "units ev3 = []" "received ev3 = [d3]" using timed_read_Inr unfolding soft_read_def by blast+
      with assms c s f \<open>r = Inr d\<close> Inr c1 r2 show ?thesis
        by (auto simp: iteration_def units_append received_append units_simps Let_def without_last_endswith split: if_splits)
    qed
  qed
qed

lemma loop_accounts:
  assumes "P \<noteq> []"
  shows "forward_loop P sn n w pending = (res, evs, w') \<Longrightarrow>
     (case res of
           Unfinished p' \<Rightarrow> concat (units evs) @ p' = pending @ concat (received evs)
         | Returned p \<Rightarrow> p = P \<and> concat (units evs) @ P = pending @ concat (received evs)
         | Raised e \<Rightarrow> (\<exists>p'. concat (units evs) @ p' = pending @ concat (received evs)))"
proof (induction n arbitrary: w pending res evs w')
  case 0
  then show ?case by (auto simp: units_simps)
next
  case (Suc n)
  obtain st ev1 w1 where it: "iteration P sn w pending = (st, ev1, w1)" by (cases "iteration P sn w pending")
  note acc = iteration_accounts[OF it assms]
  show ?case
  proof (cases st)
    case (Continue p1)
    obtain r2 ev2 w2 where l: "forward_loop P sn n w1 p1 = (r2, ev2, w2)" by (cases "forward_loop P sn n w1 p1")
    from Suc.prems it Continue l have eq: "res = r2" "evs = ev1 @ ev2" by auto
    from acc Continue have a1: "concat (units ev1) @ p1 = pending @ concat (received ev1)"
      by simp
    have glue: "concat (units (ev1 @ ev2)) @ t = pending @ concat (received (ev1 @ ev2))"
      if "concat (units ev2) @ t = p1 @ concat (received ev2)" for t
    proof -
      have "concat (units (ev1 @ ev2)) @ t = concat (units ev1) @ (concat (units ev2) @ t)"
        by (simp add: units_append)
      also have "\<dots> = (concat (units ev1) @ p1) @ concat (received ev2)"
        using that by simp
      also have "\<dots> = pending @ concat (received (ev1 @ ev2))"
        unfolding a1 by (simp add: received_append)
      finally show ?thesis .
    qed
    from Suc.IH[OF l] show ?thesis unfolding eq
      by (cases r2) (auto intro: glue)
  next
    case (Return p)
    with Suc.prems it acc show ?thesis by auto
  next
    case (Raise e)
    with Suc.prems it acc show ?thesis by auto
  qed
qed

lemma lf_units_bound:
  "length (filter (\<lambda>u. endswith u LF) us) \<le> count_list (concat us) (CHR 0x0A)"
proof (induction us)
  case Nil
  then show ?case by simp
next
  case (Cons u us)
  have "endswith u LF \<Longrightarrow> 1 \<le> count_list u (CHR 0x0A)"
    by (auto simp: endswith_iff LF_def)
  with Cons show ?case by auto
qed

lemma iteration_Return_last:
  assumes "iteration P sn w pending = (Return p, evs, w')"
  shows "\<exists>evs0 out. evs = evs0 @ [Consumer out sn] \<and> consumer_calls evs = [(out, sn)]"
proof -
  obtain ev1 w1 where c: "check_for_side_commands w = (ev1, w1)" by (cases "check_for_side_commands w")
  obtain r ev2 w2 where s: "soft_read_until w1 = (r, ev2, w2)" by (cases "soft_read_until w1") 
  obtain r3 ev3 w3 where f: "soft_read w2 = (r3, ev3, w3)" by (cases "soft_read w2") 
  from c have c1: "consumer_calls ev1 = []"
    by (auto simp: check_for_side_commands_def consumer_calls_Serviced)
  from s have c2: "consumer_calls ev2 = []"
    by (auto simp: soft_read_until_def timed_read_def consumer_calls_append consumer_calls_Issued
        split: list.splits reply.splits)
  from assms c s f obtain out where "evs = ev1 @ ev2 @ [Consumer out sn]"
    by (auto simp: iteration_def Let_def split: sum.splits if_splits)
  with c1 c2 show ?thesis by (auto simp: consumer_calls_append)
qed

lemma loop_Returned_last:
  "forward_loop P sn n w pending = (Returned p, evs, w') \<Longrightarrow>
     \<exists>evs0 out. evs = evs0 @ [Consumer out sn]"
proof (induction n arbitrary: w pending evs w')
  case 0
  then show ?case by simp
next
  case (Suc n)
  obtain st ev1 w1 where it: "iteration P sn w pending = (st, ev1, w1)" by (cases "iteration P sn w pending")
  show ?case
  proof (cases st)
    case (Continue p1)
    obtain r2 ev2 w2 where l: "forward_loop P sn n w1 p1 = (r2, ev2, w2)" by (cases "forward_loop P sn n w1 p1")
    from Suc.prems it Continue l have eq: "r2 = Returned p" "evs = ev1 @ ev2" by auto
    from Suc.IH[OF l[unfolded eq(1)]] obtain evs0 out where "ev2 = evs0 @ [Consumer out sn]" by blast
    then have "evs = (ev1 @ evs0) @ [Consumer out sn]" using eq by simp
    then show ?thesis by blast
  next
    case (Return p')
    with Suc.prems it have "evs = ev1" by auto
    with iteration_Return_last it Return show ?thesis by blast
  next
    case (Raise e)
    with Suc.prems it show ?thesis by auto
  qed
qed

subsection \<open>An idle device: nothing scripted, nothing queued\<close>

lemma iteration_idle:
  assumes "connection w = []" and "command_queue w = []"
  shows "iteration P sn w pending = (Continue pending, [Called Soft_read_until, Received []], w)"
  using assms by (simp add: iteration_def check_for_side_commands_def soft_read_until_def timed_read_def)

lemma loop_idle:
  assumes "connection w = []" and "command_queue w = []"
  shows "\<exists>evs. forward_loop P sn n w pending = (Unfinished pending, evs, w) \<and> consumer_calls evs = []"
proof (induction n)
  case 0
  then show ?case by simp
next
  case (Suc n)
  then obtain evs where "forward_loop P sn n w pending = (Unfinished pending, evs, w)" "consumer_calls evs = []"
    by blast
  then show ?case by (simp add: iteration_idle[OF assms])
qed

subsection \<open>Control requests\<close>

lemma unserviced_append: "unserviced q (es @ fs) = unserviced (unserviced q es) fs"
  by (induction q es rule: unserviced.induct) simp_all

lemma quiet_at_append:
  "quiet_at c q (es @ fs) \<longleftrightarrow> quiet_at c q es \<and> quiet_at c (unserviced q es) fs"
proof (induction es arbitrary: q)
  case Nil
  then show ?case by simp
next
  case (Cons e es)
  have "unserviced q (e # es) = unserviced (unserviced q [e]) es"
    using unserviced_append[of q "[e]" es] by simp
  with Cons show ?case by auto
qed

lemma unserviced_Serviced: "unserviced (q @ r) (map Serviced q) = r"
  by (induction q) simp_all

lemma unserviced_Issued: "unserviced q (map Issued rq) = q @ rq"
  by (induction rq arbitrary: q) simp_all

lemma quiet_Serviced: "quiet_at is_soft_read_until q (map Serviced rq)"
  by (induction rq arbitrary: q) simp_all

lemma quiet_Issued: "quiet_at is_soft_read_until q (map Issued rq)"
  by (induction rq arbitrary: q) simp_all

lemma serviced_append: "serviced (es @ fs) = serviced es @ serviced fs"
  by (induction es rule: serviced.induct) simp_all

lemma issued_append: "issued (es @ fs) = issued es @ issued fs"
  by (induction es rule: issued.induct) simp_all

lemma serviced_map: "serviced (map Serviced q) = q" "serviced (map Issued q) = []"
  by (induction q) simp_all

lemma issued_map: "issued (map Serviced q) = []" "issued (map Issued q) = q"
  by (induction q) simp_all

lemma timed_read_requests:
  assumes "timed_read k w = (r, evs, w')"
  shows "serviced evs = [] \<and> command_queue w' = command_queue w @ issued evs
       \<and> unserviced q evs = q @ issued evs
       \<and> (\<exists>rest. evs = Called k # rest \<and> quiet_at is_soft_read_until q' rest)"
  using assms unfolding timed_read_def
  by (auto split: list.splits reply.splits
      simp: serviced_append issued_append serviced_map issued_map unserviced_append unserviced_Issued
        quiet_at_append quiet_Issued)

lemma iteration_requests:
  assumes "iteration P sn w pending = (st, evs, w')"
  shows "quiet_at is_soft_read_until (command_queue w) evs
       \<and> serviced evs = command_queue w
       \<and> command_queue w' = issued evs
       \<and> unserviced (command_queue w) evs = command_queue w'"
proof -
  obtain ev1 w1 where c: "check_for_side_commands w = (ev1, w1)" by (cases "check_for_side_commands w")
  obtain r ev2 w2 where s: "timed_read Soft_read_until w1 = (r, ev2, w2)" by (cases "timed_read Soft_read_until w1") 
  obtain r3 ev3 w3 where f: "timed_read Soft_read w2 = (r3, ev3, w3)" by (cases "timed_read Soft_read w2")
  from c have c1: "ev1 = map Serviced (command_queue w)" "command_queue w1 = []"
    by (auto simp: check_for_side_commands_def)
  note s1 = timed_read_requests[OF s, of "[]" "[]"]
  note f1 = timed_read_requests[OF f, of "issued ev2" "issued ev2"]
  have u1: "unserviced (command_queue w) ev1 = []"
    using unserviced_Serviced[of "command_queue w" "[]"] c1 by simp
  have q1: "quiet_at is_soft_read_until (command_queue w) ev1"
    using c1 quiet_Serviced by simp
  from s1 have q2: "quiet_at is_soft_read_until [] ev2" by auto
  from f1 have q3: "quiet_at is_soft_read_until (issued ev2) ev3" by auto
  have base: "quiet_at is_soft_read_until (command_queue w) (ev1 @ ev2)"
     "unserviced (command_queue w) (ev1 @ ev2) = issued ev2"
     "serviced (ev1 @ ev2) = command_queue w" "issued (ev1 @ ev2) = issued ev2"
     "command_queue w2 = issued ev2"
    using u1 q1 q2 s1 c1 by (auto simp: quiet_at_append unserviced_append serviced_append issued_append serviced_map issued_map)
  have ext: "quiet_at is_soft_read_until (command_queue w) (ev1 @ ev2 @ ev3)"
     "unserviced (command_queue w) (ev1 @ ev2 @ ev3) = issued ev2 @ issued ev3"
     "serviced (ev1 @ ev2 @ ev3) = command_queue w" "issued (ev1 @ ev2 @ ev3) = issued ev2 @ issued ev3"
     "command_queue w3 = issued ev2 @ issued ev3"
    using u1 q1 q2 q3 s1 f1 c1 by (auto simp: quiet_at_append unserviced_append serviced_append issued_append serviced_map issued_map)
  have tail: "\<And>es d. quiet_at is_soft_read_until (command_queue w) (es @ [Consumer d sn]) = quiet_at is_soft_read_until (command_queue w) es"
    "\<And>es d. unserviced (command_queue w) (es @ [Consumer d sn]) = unserviced (command_queue w) es"
    "\<And>es d. serviced (es @ [Consumer d sn]) = serviced es"
    "\<And>es d. issued (es @ [Consumer d sn]) = issued es"
    by (simp_all add: quiet_at_append unserviced_append serviced_append issued_append)
  from assms c s f consider
      "evs = ev1 @ ev2" "w' = w2"
    | d where "evs = (ev1 @ ev2) @ [Consumer d sn]" "w' = w2"
    | "evs = ev1 @ ev2 @ ev3" "w' = w3"
    | d where "evs = (ev1 @ ev2 @ ev3) @ [Consumer d sn]" "w' = w3"
    by (auto simp: iteration_def soft_read_until_def soft_read_def Let_def split: sum.splits if_splits)
  then show ?thesis
  proof cases
    case 1
    with base show ?thesis by simp
  next
    case 2
    show ?thesis unfolding 2 tail using base by simp
  next
    case 3
    with ext show ?thesis by simp
  next
    case 4
    show ?thesis unfolding 4 tail using ext by simp
  qed
qed

lemma loop_requests:
  "forward_loop P sn n w pending = (res, evs, w') \<Longrightarrow>
     quiet_at is_soft_read_until (command_queue w) evs
   \<and> serviced evs @ command_queue w' = command_queue w @ issued evs
   \<and> unserviced (command_queue w) evs = command_queue w'"
proof (induction n arbitrary: w pending res evs w')
  case 0
  then show ?case by auto
next
  case (Suc n)
  obtain st ev1 w1 where it: "iteration P sn w pending = (st, ev1, w1)" by (cases "iteration P sn w pending")
  note rq = iteration_requests[OF it]
  show ?case
  proof (cases st)
    case (Continue p1)
    obtain r2 ev2 w2 where l: "forward_loop P sn n w1 p1 = (r2, ev2, w2)" by (cases "forward_loop P sn n w1 p1")
    from Suc.prems it Continue l have eq: "evs = ev1 @ ev2" "w' = w2" by auto
    from Suc.IH[OF l] rq show ?thesis unfolding eq
      by (simp add: quiet_at_append unserviced_append serviced_append issued_append)
  next
    case (Return p)
    with Suc.prems it have "evs = ev1" "w' = w1" by auto
    with rq show ?thesis by simp
  next
    case (Raise e)
    with Suc.prems it have "evs = ev1" "w' = w1" by auto
    with rq show ?thesis by simp
  qed
qed

lemma iteration_services_first:
  "iteration P sn w pending = (st, evs, w') \<Longrightarrow>
     \<exists>rest. evs = map Serviced (command_queue w) @ Called Soft_read_until # rest"
  by (auto simp: iteration_def check_for_side_commands_def soft_read_until_def timed_read_def Let_def
      split: list.splits reply.splits sum.splits if_splits prod.splits)

lemma timed_read_consumes:
  assumes "timed_read k w = (r, evs, w')"
  shows "\<exists>used. connection w = used @ connection w' \<and> concat (received evs) = concat (map reply_bytes used)"
proof (cases "connection w")
  case Nil
  with assms show ?thesis by (auto simp: timed_read_def)
next
  case (Cons a rest)
  with assms have "connection w = [a] @ connection w' \<and> concat (received evs) = concat (map reply_bytes [a])"
    by (cases a) (auto simp: timed_read_def received_append received_Issued)
  then show ?thesis by blast
qed

lemma iteration_consumes:
  assumes "iteration P sn w pending = (st, evs, w')"
  shows "\<exists>used. connection w = used @ connection w' \<and> concat (received evs) = concat (map reply_bytes used)"
proof -
  obtain ev1 w1 where c: "check_for_side_commands w = (ev1, w1)" by (cases "check_for_side_commands w")
  obtain r ev2 w2 where s: "timed_read Soft_read_until w1 = (r, ev2, w2)" by (cases "timed_read Soft_read_until w1") 
  obtain r3 ev3 w3 where f: "timed_read Soft_read w2 = (r3, ev3, w3)" by (cases "timed_read Soft_read w2")
  from c have c1: "received ev1 = []" "connection w1 = connection w"
    by (auto simp: check_for_side_commands_def received_Serviced)
  from timed_read_consumes[OF s] obtain u2 where u2: "connection w1 = u2 @ connection w2"
     "concat (received ev2) = concat (map reply_bytes u2)" by blast
  from timed_read_consumes[OF f] obtain u3 where u3: "connection w2 = u3 @ connection w3"
     "concat (received ev3) = concat (map reply_bytes u3)" by blast
  from assms c s f consider
      "received evs = received (ev1 @ ev2)" "w' = w2"
    | "received evs = received (ev1 @ ev2 @ ev3)" "w' = w3"
    by (auto simp: iteration_def soft_read_until_def soft_read_def Let_def received_append split: sum.splits if_splits)
  then show ?thesis
  proof cases
    case 1
    with c1 u2 have "connection w = u2 @ connection w' \<and> concat (received evs) = concat (map reply_bytes u2)"
      by (simp add: received_append)
    then show ?thesis by blast
  next
    case 2
    with c1 u2 u3 have "connection w = (u2 @ u3) @ connection w' \<and> concat (received evs) = concat (map reply_bytes (u2 @ u3))"
      by (simp add: received_append)
    then show ?thesis by blast
  qed
qed

lemma loop_consumes:
  "forward_loop P sn n w pending = (res, evs, w') \<Longrightarrow>
     \<exists>used. connection w = used @ connection w' \<and> concat (received evs) = concat (map reply_bytes used)"
proof (induction n arbitrary: w pending res evs w')
  case 0
  then show ?case by auto
next
  case (Suc n)
  obtain st ev1 w1 where it: "iteration P sn w pending = (st, ev1, w1)" by (cases "iteration P sn w pending")
  from iteration_consumes[OF it] obtain u1 where u1: "connection w = u1 @ connection w1"
     "concat (received ev1) = concat (map reply_bytes u1)" by blast
  show ?case
  proof (cases st)
    case (Continue p1)
    obtain r2 ev2 w2 where l: "forward_loop P sn n w1 p1 = (r2, ev2, w2)" by (cases "forward_loop P sn n w1 p1")
    from Suc.prems it Continue l have eq: "evs = ev1 @ ev2" "w' = w2" by auto
    from Suc.IH[OF l] obtain u2 where u2: "connection w1 = u2 @ connection w2"
     "concat (received ev2) = concat (map reply_bytes u2)" by blast
    from u1 u2 have "connection w = (u1 @ u2) @ connection w' \<and> concat (received evs) = concat (map reply_bytes (u1 @ u2))"
      unfolding eq by (simp add: received_append)
    then show ?thesis by blast
  next
    case (Return p)
    with Suc.prems it have "evs = ev1" "w' = w1" by auto
    with u1 show ?thesis by blast
  next
    case (Raise e)
    with Suc.prems it have "evs = ev1" "w' = w1" by auto
    with u1 show ?thesis by blast
  qed
qed

lemma iteration_idle_reply:
  assumes "connection w = Returns [] rq # rest"
  shows "iteration P sn w pending =
     (Continue pending,
      map Serviced (command_queue w) @ Called Soft_read_until # map Issued rq @ [Received []],
      w\<lparr>connection := rest, command_queue := rq\<rparr>)"
  using assms
  by (simp add: iteration_def check_for_side_commands_def soft_read_until_def timed_read_def)

lemma iteration_silent:
  assumes "connection w = []"
  shows "iteration P sn w pending =
     (Continue pending,
      map Serviced (command_queue w) @ [Called Soft_read_until, Received []],
      w\<lparr>command_queue := []\<rparr>)"
  using assms
  by (simp add: iteration_def check_for_side_commands_def soft_read_until_def timed_read_def)

lemma loop_idle_services_all:
  assumes "list_all idle_reply (connection w)"
    and "length (connection w) < n \<or> (connection w = [] \<and> command_queue w = [])"
  shows "\<exists>evs w'. forward_loop P sn n w pending = (Unfinished pending, evs, w')
       \<and> serviced evs = command_queue w @ concat (map reply_requests (connection w))
       \<and> command_queue w' = [] \<and> consumer_calls evs = []"
  using assms
proof (induction n arbitrary: w)
  case 0
  then show ?case by simp
next
  case (Suc n)
  show ?case
  proof (cases "connection w")
    case Nil
    let ?w1 = "w\<lparr>command_queue := []\<rparr>"
    have "list_all idle_reply (connection ?w1)" 
      and "length (connection ?w1) < n \<or> (connection ?w1 = [] \<and> command_queue ?w1 = [])"
      using Nil by simp_all
    from Suc.IH[OF this] obtain evs w' where
      "forward_loop P sn n ?w1 pending = (Unfinished pending, evs, w')"
      "serviced evs = []" "command_queue w' = []" "consumer_calls evs = []"
      using Nil by auto
    then show ?thesis
      by (simp add: iteration_silent[OF Nil] serviced_append serviced_map consumer_calls_append
          consumer_calls_Serviced Nil)
  next
    case (Cons r rest)
    with Suc.prems(1) obtain rq where r: "r = Returns [] rq" by (cases r) auto
    let ?w1 = "w\<lparr>connection := rest, command_queue := rq\<rparr>"
    have "list_all idle_reply (connection ?w1)" 
      and "length (connection ?w1) < n \<or> (connection ?w1 = [] \<and> command_queue ?w1 = [])"
      using Cons Suc.prems by auto
    from Suc.IH[OF this] obtain evs w' where
      "forward_loop P sn n ?w1 pending = (Unfinished pending, evs, w')"
      "serviced evs = rq @ concat (map reply_requests rest)" "command_queue w' = []" "consumer_calls evs = []"
      by auto
    moreover have "connection w = Returns [] rq # rest" using Cons r by simp
    ultimately show ?thesis
      by (simp add: iteration_idle_reply serviced_append serviced_map consumer_calls_append
          consumer_calls_Serviced consumer_calls_Issued)
  qed
qed

subsection \<open>More on events\<close>

lemma read_calls_append: "read_calls (es @ fs) = read_calls es @ read_calls fs"
  by (induction es rule: read_calls.induct) simp_all

lemma written_append: "written (es @ fs) = written es @ written fs"
  by (induction es rule: written.induct) simp_all

lemma program_outputs_append: "program_outputs (es @ fs) = program_outputs es @ program_outputs fs"
  by (induction es rule: program_outputs.induct) simp_all

lemma Issued_map:
  "read_calls (map Issued q) = []" "written (map Issued q) = []" "program_outputs (map Issued q) = []"
  by (induction q) simp_all

lemma Serviced_map:
  "read_calls (map Serviced q) = []" "written (map Serviced q) = []" "program_outputs (map Serviced q) = []"
  by (induction q) simp_all

lemmas events_append = consumer_calls_append received_append serviced_append issued_append
  read_calls_append written_append program_outputs_append

lemmas events_map = consumer_calls_Issued consumer_calls_Serviced received_Issued received_Serviced
  serviced_map issued_map Issued_map Serviced_map

subsection \<open>The prompt branch\<close>

lemmas exec_defs = execute_with_consumer_def and_then_def read_until_def connection_write_def

lemma endswith_last:
  assumes "P \<noteq> []" and "last P \<noteq> CHR 0x0A"
  shows "\<not> endswith (out @ P) LF"
proof
  assume "endswith (out @ P) LF"
  then obtain pre where "out @ P = pre @ [CHR 0x0A]" by (auto simp: endswith_iff LF_def)
  then have "last (out @ P) = CHR 0x0A" by simp
  with assms show False by simp
qed

lemma iteration_at_prompt:
  assumes "NORMAL_PROMPT \<noteq> []" and "last NORMAL_PROMPT \<noteq> CHR 0x0A"
    and "connection w = Returns new_data rq # rest" and "new_data \<noteq> []"
    and "pending @ new_data = out @ NORMAL_PROMPT"
  shows "\<exists>evs w'. iteration NORMAL_PROMPT stream_name w pending = (Return NORMAL_PROMPT, evs, w')
           \<and> consumer_calls evs = [(out, stream_name)]"
proof -
  have a: "\<not> endswith (out @ NORMAL_PROMPT) LF" using endswith_last assms(1,2) by blast
  have b: "endswith (out @ NORMAL_PROMPT) NORMAL_PROMPT" by (auto simp: endswith_iff)
  have c: "without_last (length NORMAL_PROMPT) (out @ NORMAL_PROMPT) = out"
    using assms(1) by (rule without_last_append)
  show ?thesis using assms(3,4,5) a b c
    by (simp add: iteration_def check_for_side_commands_def soft_read_until_def timed_read_def
        consumer_calls_append consumer_calls_Serviced consumer_calls_Issued)
qed

lemma execute_at_prompt:
  assumes "NORMAL_PROMPT \<noteq> []"
    and "connection w = Returns b1 q1 # Returns b2 q2 # Returns b3 q3 # Returns (out @ NORMAL_PROMPT) q4 # rest"
  shows "\<exists>evs w'. execute_with_consumer EOT NORMAL_PROMPT script w = (Done, evs, w')
           \<and> consumer_calls evs = [(out, ''stdout'')]"
  using assms
  by (simp add: exec_defs without_last_append consumer_calls_append consumer_calls_Issued)

subsection \<open>Failures of a submission\<close>

lemma execute_failure_is_the_transports:
  assumes "execute_with_consumer EOT NORMAL_PROMPT script w = (res, evs, w')"
  shows "(\<forall>e. res = Failed e \<longrightarrow> Raises e \<in> set (connection w) \<and> consumer_calls evs = [])
       \<and> (res = Blocked \<longrightarrow> consumer_calls evs = [])"
  using assms unfolding exec_defs
  by (auto split: list.splits reply.splits simp: events_append events_map)

subsection \<open>What the callers see\<close>









subsection \<open>Evaluating concrete runs\<close>

lemmas run_defs = forward_output_until_active_prompt_def connected_to_def iteration_def
  check_for_side_commands_def soft_read_until_def soft_read_def timed_read_def
  endswith_def LF_def ends_overlap_def without_last_def Let_def units_def


subsection \<open>Runs that return, and the prompt branch\<close>

text \<open>
  What the loop does account for. For every script and every number of passes the units
  flushed are cut, in order, from the bytes the reads returned; a run that returns has
  flushed everything before the marker and ends with one terminal unit. This says
  nothing about whether a run returns: the runs in the next section do not.
\<close>

lemma returned_run_round_trip:
  assumes "forward_output_until_active_prompt NORMAL_PROMPT stream_name fuel w = (res, evs, w')"
    and "NORMAL_PROMPT \<noteq> []"
  shows "(\<exists>used. connection w = used @ connection w'
                 \<and> concat (received evs) = concat (map reply_bytes used))
       \<and> (case res of
             Returned prompt \<Rightarrow>
               prompt = NORMAL_PROMPT
               \<and> concat (units evs) @ NORMAL_PROMPT = concat (received evs)
               \<and> (\<exists>evs0 out. evs = evs0 @ [Consumer out stream_name])
           | Unfinished pending \<Rightarrow> concat (units evs) @ pending = concat (received evs)
           | Raised e \<Rightarrow> prefix (concat (units evs)) (concat (received evs)))
       \<and> length (filter (\<lambda>u. endswith u LF) (units evs))
           \<le> count_list (concat (received evs)) (CHR 0x0A)"
proof -
  from assms(1) have run: "forward_loop NORMAL_PROMPT stream_name fuel w [] = (res, evs, w')"
    by (simp add: forward_output_until_active_prompt_def)
  note acc = loop_accounts[OF assms(2) run]
  have shape: "case res of
             Returned prompt \<Rightarrow>
               prompt = NORMAL_PROMPT
               \<and> concat (units evs) @ NORMAL_PROMPT = concat (received evs)
               \<and> (\<exists>evs0 out. evs = evs0 @ [Consumer out stream_name])
           | Unfinished pending \<Rightarrow> concat (units evs) @ pending = concat (received evs)
           | Raised e \<Rightarrow> prefix (concat (units evs)) (concat (received evs))"
  proof (cases res)
    case (Returned prompt)
    with acc loop_Returned_last[of NORMAL_PROMPT stream_name fuel w "[]" prompt evs w'] run
    show ?thesis by simp
  next
    case (Raised e)
    with acc obtain p' where "concat (units evs) @ p' = concat (received evs)" by auto
    then have "prefix (concat (units evs)) (concat (received evs))"
      by (metis prefixI)
    with Raised show ?thesis by simp
  next
    case (Unfinished pending)
    with acc show ?thesis by simp
  qed
  from acc obtain tail where "concat (units evs) @ tail = concat (received evs)"
    by (cases res) auto
  then have "concat (received evs) = concat (units evs) @ tail" by simp
  then have "count_list (concat (units evs)) (CHR 0x0A) \<le> count_list (concat (received evs)) (CHR 0x0A)"
    by simp
  with lf_units_bound[of "units evs"]
  have lf: "length (filter (\<lambda>u. endswith u LF) (units evs))
           \<le> count_list (concat (received evs)) (CHR 0x0A)" by simp
  from shape lf loop_consumes[OF run] show ?thesis by simp
qed

lemma returned_run_round_trip_example:
  "forward_output_until_active_prompt ''>>> '' ''stdout'' (Suc (Suc 0))
       (connected_to [Returns ''1\<newline>'' [], Returns ''>>> '' []])
     = (Returned ''>>> '',
        [Called Soft_read_until, Received ''1\<newline>'', Consumer ''1\<newline>'' ''stdout'',
         Called Soft_read_until, Received ''>>> '', Consumer [] ''stdout''],
        connected_to [])
   \<and> ''>>> '' \<noteq> []
   \<and> concat (units [Called Soft_read_until, Received ''1\<newline>'', Consumer ''1\<newline>'' ''stdout'',
         Called Soft_read_until, Received ''>>> '', Consumer [] ''stdout'']) @ ''>>> ''
       = ''1\<newline>>>> ''"
proof -
  have run: "forward_output_until_active_prompt ''>>> '' ''stdout'' (Suc (Suc 0))
       (connected_to [Returns ''1\<newline>'' [], Returns ''>>> '' []])
     = (Returned ''>>> '',
        [Called Soft_read_until, Received ''1\<newline>'', Consumer ''1\<newline>'' ''stdout'',
         Called Soft_read_until, Received ''>>> '', Consumer [] ''stdout''],
        connected_to [])"
    by (simp add: run_defs)
  have ne: "''>>> '' \<noteq> []" by simp
  from returned_run_round_trip[OF run ne] run show ?thesis by simp
qed

text \<open>
  A pass in which \<^verbatim>\<open>soft_read_until\<close> itself completes the marker takes the branch of
  line 183: it returns the prompt after exactly one consumer call, with the marker cut
  off; so does the last statement of \<^verbatim>\<open>_execute_with_consumer\<close> on a result that
  ends with the marker. A marker completed by the follow-up read does not reach this
  branch.
\<close>

lemma prompt_branch_delivers_once:
  assumes "NORMAL_PROMPT \<noteq> []" and "last NORMAL_PROMPT \<noteq> CHR 0x0A"
  shows "(connection w = Returns new_data rq # rest \<and> new_data \<noteq> []
            \<and> pending @ new_data = out @ NORMAL_PROMPT \<longrightarrow>
          (\<exists>evs w'. iteration NORMAL_PROMPT stream_name w pending = (Return NORMAL_PROMPT, evs, w')
             \<and> consumer_calls evs = [(out, stream_name)]))
       \<and> (iteration NORMAL_PROMPT stream_name w pending = (Return prompt, evs, w') \<longrightarrow>
          (\<exists>out. consumer_calls evs = [(out, stream_name)]
             \<and> out @ NORMAL_PROMPT = pending @ concat (received evs)))
       \<and> (connection w = Returns b1 q1 # Returns b2 q2 # Returns b3 q3
                           # Returns (out @ NORMAL_PROMPT) q4 # rest \<longrightarrow>
          (\<exists>evs w'. execute_with_consumer EOT NORMAL_PROMPT script w = (Done, evs, w')
             \<and> consumer_calls evs = [(out, ''stdout'')]))"
proof (intro conjI impI)
  assume "connection w = Returns new_data rq # rest \<and> new_data \<noteq> []
            \<and> pending @ new_data = out @ NORMAL_PROMPT"
  with assms show "\<exists>evs w'. iteration NORMAL_PROMPT stream_name w pending = (Return NORMAL_PROMPT, evs, w')
             \<and> consumer_calls evs = [(out, stream_name)]"
    using iteration_at_prompt by blast
next
  assume it: "iteration NORMAL_PROMPT stream_name w pending = (Return prompt, evs, w')"
  from iteration_Return_last[OF it] obtain out where
    c: "consumer_calls evs = [(out, stream_name)]" by blast
  from iteration_accounts[OF it assms(1)]
  have "concat (units evs) @ NORMAL_PROMPT = pending @ concat (received evs)" by simp
  with c show "\<exists>out. consumer_calls evs = [(out, stream_name)]
             \<and> out @ NORMAL_PROMPT = pending @ concat (received evs)"
    by (simp add: units_def)
next
  assume "connection w = Returns b1 q1 # Returns b2 q2 # Returns b3 q3
                           # Returns (out @ NORMAL_PROMPT) q4 # rest"
  with assms(1) show "\<exists>evs w'. execute_with_consumer EOT NORMAL_PROMPT script w = (Done, evs, w')
             \<and> consumer_calls evs = [(out, ''stdout'')]"
    using execute_at_prompt by blast
qed

lemma prompt_branch_delivers_once_example:
  "''>>> '' \<noteq> [] \<and> last ''>>> '' \<noteq> CHR 0x0A
   \<and> connection (connected_to [Returns ''>>> '' []]) = Returns ''>>> '' [] # []
   \<and> [] @ ''>>> '' = [] @ ''>>> ''
   \<and> (\<exists>evs w'. iteration ''>>> '' ''stdout'' (connected_to [Returns ''>>> '' []]) []
             = (Return ''>>> '', evs, w')
          \<and> consumer_calls evs = [([], ''stdout'')])
   \<and> connection (connected_to [Returns ''=== '' [], Returns ''pass#uuu'' [], Returns ''\<newline>'' [],
                      Returns ([] @ ''>>> '') []])
       = Returns ''=== '' [] # Returns ''pass#uuu'' [] # Returns ''\<newline>'' []
           # Returns ([] @ ''>>> '') [] # []
   \<and> (\<exists>evs w'. execute_with_consumer [CHR 0x04] ''>>> '' ''pass''
              (connected_to [Returns ''=== '' [], Returns ''pass#uuu'' [], Returns ''\<newline>'' [],
                      Returns ([] @ ''>>> '') []])
             = (Done, evs, w')
          \<and> consumer_calls evs = [([], ''stdout'')])"
proof -
  have p: "''>>> '' \<noteq> []" "last ''>>> '' \<noteq> CHR 0x0A" by simp_all
  have c1: "connection (connected_to [Returns ''>>> '' []]) = Returns ''>>> '' [] # []"
    by (simp add: connected_to_def)
  have c2: "connection (connected_to [Returns ''=== '' [], Returns ''pass#uuu'' [], Returns ''\<newline>'' [],
                      Returns ([] @ ''>>> '') []])
       = Returns ''=== '' [] # Returns ''pass#uuu'' [] # Returns ''\<newline>'' []
           # Returns ([] @ ''>>> '') [] # []"
    by (simp add: connected_to_def)
  from prompt_branch_delivers_once[OF p, of "connected_to [Returns ''>>> '' []]"
      "''>>> ''" "[]" "[]" "[]" "[]" "''stdout''"] c1
  have a: "\<exists>evs w'. iteration ''>>> '' ''stdout'' (connected_to [Returns ''>>> '' []]) []
             = (Return ''>>> '', evs, w')
          \<and> consumer_calls evs = [([], ''stdout'')]"
    by simp
  from prompt_branch_delivers_once[OF p, of
      "connected_to [Returns ''=== '' [], Returns ''pass#uuu'' [], Returns ''\<newline>'' [],
                      Returns ([] @ ''>>> '') []]" _ _ _ _ "[]"] c2
  have b: "\<exists>evs w'. execute_with_consumer [CHR 0x04] ''>>> '' ''pass''
              (connected_to [Returns ''=== '' [], Returns ''pass#uuu'' [], Returns ''\<newline>'' [],
                      Returns ([] @ ''>>> '') []])
             = (Done, evs, w')
          \<and> consumer_calls evs = [([], ''stdout'')]"
    by blast
  from p c1 c2 a b show ?thesis by simp
qed

section \<open>The read loop\<close>

text \<open>
  C3. The claim is that the units flushed, followed by the prompt marker, are the bytes
  consumed, with exactly one terminal unit flushed at the prompt. The run below refutes
  it in the code: the device sends \<^verbatim>\<open>ok\<close> and its prompt, the prompt arriving as
  three bytes in the first read and the fourth in the follow-up read, and a line later
  on. The follow-up byte is appended without a second look at the buffer (line 197), so
  the prompt is not seen; the later line closes a unit that holds the marker in its
  middle. No terminal unit is flushed, the bytes before the marker are not delivered on
  their own, and the loop is still running whatever the fuel.
\<close>

theorem split_prompt_flushed_inside_a_unit:
  "forward_output_until_active_prompt ''>>> '' ''stdout'' (Suc (Suc 0))
       (connected_to [Returns ''ok>>>'' [], Returns '' '' [], Returns ''x\<newline>'' []])
     = (Unfinished [],
        [Called Soft_read_until, Received ''ok>>>'', Called Soft_read, Received '' '',
         Called Soft_read_until, Received ''x\<newline>'', Consumer ''ok>>> x\<newline>'' ''stdout''],
        connected_to [])
   \<and> (\<forall>fuel. \<exists>evs w'.
         forward_output_until_active_prompt ''>>> '' ''stdout'' (Suc (Suc fuel))
             (connected_to [Returns ''ok>>>'' [], Returns '' '' [], Returns ''x\<newline>'' []])
           = (Unfinished [], evs, w')
         \<and> units evs = [''ok>>> x\<newline>''])"
proof -
  have first: "iteration ''>>> '' ''stdout''
        (connected_to [Returns ''ok>>>'' [], Returns '' '' [], Returns ''x\<newline>'' []]) []
      = (Continue ''ok>>> '',
         [Called Soft_read_until, Received ''ok>>>'', Called Soft_read, Received '' ''],
         connected_to [Returns ''x\<newline>'' []])"
    by (simp add: run_defs)
  have second: "iteration ''>>> '' ''stdout'' (connected_to [Returns ''x\<newline>'' []]) ''ok>>> ''
      = (Continue [],
         [Called Soft_read_until, Received ''x\<newline>'', Consumer ''ok>>> x\<newline>'' ''stdout''],
         connected_to [])"
    by (simp add: run_defs)
  have "\<exists>evs w'.
         forward_output_until_active_prompt ''>>> '' ''stdout'' (Suc (Suc fuel))
             (connected_to [Returns ''ok>>>'' [], Returns '' '' [], Returns ''x\<newline>'' []])
           = (Unfinished [], evs, w')
         \<and> units evs = [''ok>>> x\<newline>'']" for fuel
  proof -
    obtain evs where
      "forward_loop ''>>> '' ''stdout'' fuel (connected_to []) [] = (Unfinished [], evs, connected_to [])"
      "consumer_calls evs = []"
      using loop_idle[of "connected_to []" "''>>> ''" "''stdout''" fuel "[]"]
      by (auto simp: connected_to_def)
    then show ?thesis
      by (simp add: forward_output_until_active_prompt_def first second units_def
          consumer_calls_append)
  qed
  moreover have "forward_output_until_active_prompt ''>>> '' ''stdout'' (Suc (Suc 0))
       (connected_to [Returns ''ok>>>'' [], Returns '' '' [], Returns ''x\<newline>'' []])
     = (Unfinished [],
        [Called Soft_read_until, Received ''ok>>>'', Called Soft_read, Received '' '',
         Called Soft_read_until, Received ''x\<newline>'', Consumer ''ok>>> x\<newline>'' ''stdout''],
        connected_to [])"
    by (simp add: forward_output_until_active_prompt_def first second)
  ultimately show ?thesis by blast
qed

text \<open>
  C10. The claim is that at the prompt boundary the consumer is always called exactly
  once, with the bytes before the marker and the marker cut off, and with an empty chunk
  when nothing precedes the prompt. In the run below nothing precedes the prompt and it
  arrives as three bytes and then one: the pass that completes the marker (line 197)
  calls the consumer not at all, so no empty chunk is delivered, and the next line that
  arrives is delivered with the marker in front of it.
\<close>

theorem split_prompt_boundary_without_consumer_call:
  "iteration ''>>> '' ''stdout''
       (connected_to [Returns ''>>>'' [], Returns '' '' [], Returns ''1\<newline>'' []]) []
     = (Continue ''>>> '',
        [Called Soft_read_until, Received ''>>>'', Called Soft_read, Received '' ''],
        connected_to [Returns ''1\<newline>'' []])
   \<and> endswith ''>>> '' ''>>> ''
   \<and> iteration ''>>> '' ''stdout'' (connected_to [Returns ''1\<newline>'' []]) ''>>> ''
     = (Continue [],
        [Called Soft_read_until, Received ''1\<newline>'', Consumer ''>>> 1\<newline>'' ''stdout''],
        connected_to [])"
  by (simp add: run_defs)

text \<open>
  C1. The claim is that the loop never blocks for good, and that it terminates once the
  pending buffer ends with the full prompt marker. The run below refutes it in the code:
  the first read returns the first three bytes of the prompt, the follow-up read returns
  the fourth, and the device is silent from then on. The branch that appends the
  follow-up (line 197) neither flushes nor returns, and the next passes
  \<^verbatim>\<open>continue\<close> at line 175 before the buffer is looked at again. Whatever the fuel,
  the loop is still running, the complete prompt is withheld and the consumer was never
  called.
\<close>

theorem completed_prompt_never_reported:
  "\<forall>fuel. \<exists>evs w'.
     forward_output_until_active_prompt ''>>> '' ''stdout'' (Suc fuel)
         (connected_to [Returns ''>>>'' [], Returns '' '' []])
       = (Unfinished ''>>> '', evs, w')
     \<and> consumer_calls evs = []"
proof
  fix fuel
  have first: "iteration ''>>> '' ''stdout'' (connected_to [Returns ''>>>'' [], Returns '' '' []]) []
      = (Continue ''>>> '',
         [Called Soft_read_until, Received ''>>>'', Called Soft_read, Received '' ''],
         connected_to [])"
    by (simp add: run_defs)
  obtain evs where rest:
    "forward_loop ''>>> '' ''stdout'' fuel (connected_to []) ''>>> ''
       = (Unfinished ''>>> '', evs, connected_to [])"
    "consumer_calls evs = []"
    using loop_idle[of "connected_to []" "''>>> ''" "''stdout''" fuel "''>>> ''"]
    by (auto simp: connected_to_def)
  then show "\<exists>evs w'.
     forward_output_until_active_prompt ''>>> '' ''stdout'' (Suc fuel)
         (connected_to [Returns ''>>>'' [], Returns '' '' []])
       = (Unfinished ''>>> '', evs, w')
     \<and> consumer_calls evs = []"
    by (simp add: forward_output_until_active_prompt_def first)
qed

text \<open>
  C2. The claim is that a buffer whose tail is a proper prefix of the prompt, completed
  by the bounded extra read, is re-classified at once as a boundary, with no further
  bytes needed. In the code the pass that reads the completing byte appends it and
  continues (line 197) without classifying the buffer again; a buffer that now ends with
  the full prompt is only looked at after a later read returns data. With a silent
  device every further pass leaves the loop running, the buffer withheld, and the
  consumer is never called.
\<close>

theorem completed_marker_not_reclassified:
  "iteration ''>>> '' ''stdout'' (connected_to [Returns ''ok>>>'' [], Returns '' '' []]) []
     = (Continue ''ok>>> '',
        [Called Soft_read_until, Received ''ok>>>'', Called Soft_read, Received '' ''],
        connected_to [])
   \<and> endswith ''ok>>> '' ''>>> ''
   \<and> (\<forall>fuel. \<exists>evs w'.
         forward_loop ''>>> '' ''stdout'' fuel (connected_to []) ''ok>>> ''
           = (Unfinished ''ok>>> '', evs, w')
         \<and> consumer_calls evs = [])"
proof -
  have "\<exists>evs w'. forward_loop ''>>> '' ''stdout'' fuel (connected_to []) ''ok>>> ''
           = (Unfinished ''ok>>> '', evs, w') \<and> consumer_calls evs = []" for fuel
    using loop_idle[of "connected_to []" "''>>> ''" "''stdout''" fuel "''ok>>> ''"]
    by (auto simp: connected_to_def)
  then show ?thesis by (simp add: run_defs)
qed

text \<open>
  C5. The claim is that a buffer whose tail is a proper prefix of the prompt, followed
  within the extra-read window by bytes that do not continue the marker, is flushed and
  not withheld indefinitely. In the code the follow-up byte is appended and the buffer is
  withheld (line 197) until a later read returns data; with a silent device it is never
  flushed, whatever the fuel. The same bytes arriving in one read are flushed at once by
  the last branch (line 202).
\<close>

theorem unrelated_follow_up_withheld:
  "(\<forall>fuel. \<exists>evs w'.
      forward_output_until_active_prompt ''>>> '' ''stdout'' (Suc fuel)
          (connected_to [Returns ''a>'' [], Returns ''b'' []])
        = (Unfinished ''a>b'', evs, w')
      \<and> consumer_calls evs = [])
   \<and> forward_output_until_active_prompt ''>>> '' ''stdout'' (Suc 0) (connected_to [Returns ''a>b'' []])
     = (Unfinished [],
        [Called Soft_read_until, Received ''a>b'', Consumer ''a>b'' ''stdout''],
        connected_to [])"
proof -
  have first: "iteration ''>>> '' ''stdout'' (connected_to [Returns ''a>'' [], Returns ''b'' []]) []
      = (Continue ''a>b'',
         [Called Soft_read_until, Received ''a>'', Called Soft_read, Received ''b''],
         connected_to [])"
    by (simp add: run_defs)
  have "\<exists>evs w'. forward_output_until_active_prompt ''>>> '' ''stdout'' (Suc fuel)
          (connected_to [Returns ''a>'' [], Returns ''b'' []])
        = (Unfinished ''a>b'', evs, w') \<and> consumer_calls evs = []" for fuel
  proof -
    obtain evs where
      "forward_loop ''>>> '' ''stdout'' fuel (connected_to []) ''a>b''
         = (Unfinished ''a>b'', evs, connected_to [])"
      "consumer_calls evs = []"
      using loop_idle[of "connected_to []" "''>>> ''" "''stdout''" fuel "''a>b''"]
      by (auto simp: connected_to_def)
    then show ?thesis by (simp add: forward_output_until_active_prompt_def first)
  qed
  moreover have "forward_output_until_active_prompt ''>>> '' ''stdout'' (Suc 0) (connected_to [Returns ''a>b'' []])
     = (Unfinished [],
        [Called Soft_read_until, Received ''a>b'', Consumer ''a>b'' ''stdout''],
        connected_to [])"
    by (simp add: run_defs)
  ultimately show ?thesis by blast
qed

text \<open>
  C8, as amended. Along every run of the read loop, no request is unserviced at the
  moment \<^verbatim>\<open>soft_read_until\<close> is called, so every request that is pending when a pass
  begins is serviced before that pass reads and before it flushes anything. Requests are
  neither lost nor duplicated: those serviced, followed by those still queued at the end,
  are those queued at the start followed by those issued during the run. Every pass
  begins by servicing the whole queue. With a device that returns nothing on every read
  and more passes than scripted reads, every request is serviced and the queue ends
  empty. The follow-up \<^verbatim>\<open>soft_read\<close> of line 190 is not covered: see the
  counterexample.
\<close>

theorem requests_serviced_before_soft_read_until:
  assumes "forward_output_until_active_prompt NORMAL_PROMPT stream_name fuel w = (res, evs, w')"
  shows "quiet_at is_soft_read_until (command_queue w) evs
       \<and> serviced evs @ command_queue w' = command_queue w @ issued evs
       \<and> (0 < fuel \<longrightarrow>
            (\<exists>rest. evs = map Serviced (command_queue w) @ Called Soft_read_until # rest))
       \<and> (list_all idle_reply (connection w)
            \<and> length (connection w) < fuel \<longrightarrow>
            serviced evs = command_queue w @ concat (map reply_requests (connection w))
            \<and> command_queue w' = [])"
proof -
  from assms have run: "forward_loop NORMAL_PROMPT stream_name fuel w [] = (res, evs, w')"
    by (simp add: forward_output_until_active_prompt_def)
  have first: "0 < fuel \<longrightarrow>
            (\<exists>rest. evs = map Serviced (command_queue w) @ Called Soft_read_until # rest)"
  proof
    assume "0 < fuel"
    then obtain n where n: "fuel = Suc n" by (cases fuel) auto
    obtain st ev1 w1 where it: "iteration NORMAL_PROMPT stream_name w [] = (st, ev1, w1)"
      by (cases "iteration NORMAL_PROMPT stream_name w []")
    from iteration_services_first[OF it] obtain rest where
      ev1: "ev1 = map Serviced (command_queue w) @ Called Soft_read_until # rest" by blast
    from run n it obtain later where "evs = ev1 @ later"
      by (cases st) (auto split: prod.splits)
    with ev1 show "\<exists>rest. evs = map Serviced (command_queue w) @ Called Soft_read_until # rest"
      by simp
  qed
  have idle: "list_all idle_reply (connection w)
            \<and> length (connection w) < fuel \<longrightarrow>
            serviced evs = command_queue w @ concat (map reply_requests (connection w))
            \<and> command_queue w' = []"
  proof
    assume a: "list_all idle_reply (connection w)
            \<and> length (connection w) < fuel"
    then have "length (connection w) < fuel \<or> (connection w = [] \<and> command_queue w = [])" by simp
    from loop_idle_services_all[OF conjunct1[OF a] this, of NORMAL_PROMPT stream_name "[]"] run
    show "serviced evs = command_queue w @ concat (map reply_requests (connection w))
            \<and> command_queue w' = []" by auto
  qed
  from loop_requests[OF run] first idle show ?thesis by simp
qed

theorem requests_serviced_before_soft_read_until_witness:
  "forward_output_until_active_prompt ''>>> '' ''stdout'' (Suc (Suc (Suc 0)))
     \<lparr>connection = [Returns [] [''interrupt''], Returns [] [''input'']],
      command_queue = [''status''], original_welcome_text = []\<rparr>
   = (Unfinished [],
      [Serviced ''status'', Called Soft_read_until, Issued ''interrupt'', Received [],
       Serviced ''interrupt'', Called Soft_read_until, Issued ''input'', Received [],
       Serviced ''input'', Called Soft_read_until, Received []],
      \<lparr>connection = [], command_queue = [], original_welcome_text = []\<rparr>)
   \<and> quiet_at is_soft_read_until [''status'']
      [Serviced ''status'', Called Soft_read_until, Issued ''interrupt'', Received [],
       Serviced ''interrupt'', Called Soft_read_until, Issued ''input'', Received [],
       Serviced ''input'', Called Soft_read_until, Received []]
   \<and> serviced
      [Serviced ''status'', Called Soft_read_until, Issued ''interrupt'', Received [],
       Serviced ''interrupt'', Called Soft_read_until, Issued ''input'', Received [],
       Serviced ''input'', Called Soft_read_until, Received []]
     = [''status'', ''interrupt'', ''input'']"
proof -
  have run: "forward_output_until_active_prompt ''>>> '' ''stdout'' (Suc (Suc (Suc 0)))
     \<lparr>connection = [Returns [] [''interrupt''], Returns [] [''input'']],
      command_queue = [''status''], original_welcome_text = []\<rparr>
   = (Unfinished [],
      [Serviced ''status'', Called Soft_read_until, Issued ''interrupt'', Received [],
       Serviced ''interrupt'', Called Soft_read_until, Issued ''input'', Received [],
       Serviced ''input'', Called Soft_read_until, Received []],
      \<lparr>connection = [], command_queue = [], original_welcome_text = []\<rparr>)"
    by (simp add: run_defs)
  from requests_serviced_before_soft_read_until[OF run] run show ?thesis by simp
qed

text \<open>
  The claim as stated, ``serviced before the next read attempt and hence before any
  subsequent output is flushed'', fails for the second read of a pass: a request issued
  while \<^verbatim>\<open>soft_read_until\<close> waits is still unserviced when the overlap branch calls
  \<^verbatim>\<open>soft_read\<close>, and when its timeout flushes the buffer.
\<close>

theorem follow_up_read_with_request_unserviced:
  "forward_output_until_active_prompt ''>>> '' ''stdout'' (Suc 0)
     (connected_to [Returns ''a>'' [''interrupt'']])
   = (Unfinished [],
      [Called Soft_read_until, Issued ''interrupt'', Received ''a>'',
       Called Soft_read, Received [], Consumer ''a>'' ''stdout''],
      \<lparr>connection = [], command_queue = [''interrupt''], original_welcome_text = []\<rparr>)
   \<and> \<not> quiet_at is_read []
      [Called Soft_read_until, Issued ''interrupt'', Received ''a>'',
       Called Soft_read, Received [], Consumer ''a>'' ''stdout'']"
  by (simp add: run_defs)

section \<open>Submitting a script\<close>

text \<open>
  C4, as amended. The token that follows the source is the constant \<^verbatim>\<open>#uuu\<close>: for
  every script and every back-end whose device answers the paste-mode command, the
  second write is the script followed by \<^verbatim>\<open>#uuu\<close>, and the echo awaited next is
  \<^verbatim>\<open>#uuu\<close>. Nothing is generated per submission and nothing compares the token
  with the source.
\<close>

theorem sentinel_is_constant:
  assumes "connection w = Returns banner rq # rest"
  shows "sentinel_sent EOT NORMAL_PROMPT script w = ''#uuu''
       \<and> (\<exists>res evs w'. execute_with_consumer EOT NORMAL_PROMPT script w = (res, evs, w')
            \<and> take 2 (written evs) = [PASTE_MODE_CMD, script @ ''#uuu'']
            \<and> take 2 (read_calls evs) = [Read_until PASTE_MODE_LINE_PREFIX, Read_until ''#uuu''])"
  using assms unfolding sentinel_sent_def exec_defs
  by (auto split: list.splits reply.splits simp: events_append events_map)

theorem sentinel_is_constant_witness:
  "connection (connected_to [Returns ''=== '' []]) = Returns ''=== '' [] # []
   \<and> sentinel_sent [CHR 0x04] ''>>> '' ''print(1)'' (connected_to [Returns ''=== '' []]) = ''#uuu''"
proof -
  have h: "connection (connected_to [Returns ''=== '' []]) = Returns ''=== '' [] # []"
    by (simp add: connected_to_def)
  from sentinel_is_constant[OF h] h show ?thesis by simp
qed

text \<open>
  The claim as stated fails: two different submissions are followed by the same token,
  and a source that contains \<^verbatim>\<open>#uuu\<close> contains its own sentinel.
\<close>

theorem sentinel_repeats_and_collides:
  "''print(1)'' \<noteq> ''print(2)''
   \<and> sentinel_sent [CHR 0x04] ''>>> '' ''print(1)'' (connected_to [Returns ''=== '' []])
     = sentinel_sent [CHR 0x04] ''>>> '' ''print(2)'' (connected_to [Returns ''=== '' []])
   \<and> sublist (sentinel_sent [CHR 0x04] ''>>> '' ''x = 1 #uuu'' (connected_to [Returns ''=== '' []]))
        ''x = 1 #uuu''"
proof -
  have "sublist ''#uuu'' (''x = 1 '' @ ''#uuu'')" by (rule sublist_append_leftI)
  then show ?thesis
    by (simp add: sentinel_sent_def exec_defs connected_to_def)
qed

text \<open>
  C6. The claim is that a step that times out, or whose echo does not match, fails with
  \<open>ProtocolError\<close> carrying the raw bytes observed (the docstring of the function says
  ``Otherwise raises ProtocolError''). The function raises nothing itself and compares
  nothing: when the read that waits for the sentinel times out, the error that leaves
  the function is the connection's \<open>TimeoutError\<close>, without the bytes read so far; and
  an echo that differs from what was sent is accepted as long as the token occurs in it.
  The consumer is not called in the first run.
\<close>

theorem timed_out_echo_is_not_a_protocol_error:
  "execute_with_consumer [CHR 0x04] ''>>> '' ''print(1)''
     (connected_to [Returns ''=== '' [], Raises TimeoutError])
   = (Failed TimeoutError,
      [Written PASTE_MODE_CMD, Called (Read_until PASTE_MODE_LINE_PREFIX), Received ''=== '',
       Written ''print(1)#uuu'', Called (Read_until ''#uuu''), Threw TimeoutError],
      connected_to [])
   \<and> execute_with_consumer [CHR 0x04] ''>>> '' ''print(1)''
     (connected_to [Returns ''=== '' [], Returns ''garbled echo print(9)#uuu'' [], Returns ''\<newline>'' [],
        Returns ''9\<newline>>>> '' []])
   = (Done,
      [Written PASTE_MODE_CMD, Called (Read_until PASTE_MODE_LINE_PREFIX), Received ''=== '',
       Written ''print(1)#uuu'', Called (Read_until ''#uuu''), Received ''garbled echo print(9)#uuu'',
       Written [CHR 0x04], Called (Read_until ''\<newline>''), Received ''\<newline>'',
       Called (Read_until ''>>> ''), Received ''9\<newline>>>> '', Consumer ''9\<newline>'' ''stdout''],
      connected_to [])"
  by (simp add: exec_defs connected_to_def without_last_def)

text \<open>
  C7, as amended. After the acknowledgement of the end of transmission the output is
  collected by one blocking \<^verbatim>\<open>read_until(NORMAL_PROMPT)\<close>: the reads of a submission
  are an initial part of the four blocking reads of lines 150 to 156, none of them a soft
  read; no control request is serviced, the queue only grows by the requests issued
  meanwhile; and a submission that completes made exactly these four reads and then one
  consumer call, with the result of the last read without its last
  \<open>len(NORMAL_PROMPT)\<close> bytes, on stdout.
\<close>

theorem output_collected_by_one_blocking_read:
  assumes "execute_with_consumer EOT NORMAL_PROMPT script w = (res, evs, w')"
  shows "serviced evs = []
       \<and> command_queue w' = command_queue w @ issued evs
       \<and> prefix (read_calls evs)
            [Read_until PASTE_MODE_LINE_PREFIX, Read_until ''#uuu'', Read_until [CHR 0x0A],
             Read_until NORMAL_PROMPT]
       \<and> (res = Done \<longrightarrow>
            read_calls evs =
              [Read_until PASTE_MODE_LINE_PREFIX, Read_until ''#uuu'', Read_until [CHR 0x0A],
               Read_until NORMAL_PROMPT]
            \<and> (\<exists>r1 r2 r3 r. received evs = [r1, r2, r3, r]
                  \<and> consumer_calls evs = [(without_last (length NORMAL_PROMPT) r, ''stdout'')]))"
  using assms unfolding exec_defs
  by (auto split: list.splits reply.splits simp: events_append events_map)

theorem output_collected_by_one_blocking_read_witness:
  "execute_with_consumer [CHR 0x04] ''>>> '' ''print(1)''
     \<lparr>connection = [Returns ''=== '' [], Returns ''print(1)#uuu'' [], Returns ''\<newline>'' [],
                    Returns ''1\<newline>>>> '' [''interrupt'']],
      command_queue = [''input''], original_welcome_text = []\<rparr>
   = (Done,
      [Written PASTE_MODE_CMD, Called (Read_until PASTE_MODE_LINE_PREFIX), Received ''=== '',
       Written ''print(1)#uuu'', Called (Read_until ''#uuu''), Received ''print(1)#uuu'',
       Written [CHR 0x04], Called (Read_until ''\<newline>''), Received ''\<newline>'',
       Called (Read_until ''>>> ''), Issued ''interrupt'', Received ''1\<newline>>>> '',
       Consumer ''1\<newline>'' ''stdout''],
      \<lparr>connection = [], command_queue = [''input'', ''interrupt''], original_welcome_text = []\<rparr>)
   \<and> serviced
      [Written PASTE_MODE_CMD, Called (Read_until PASTE_MODE_LINE_PREFIX), Received ''=== '',
       Written ''print(1)#uuu'', Called (Read_until ''#uuu''), Received ''print(1)#uuu'',
       Written [CHR 0x04], Called (Read_until ''\<newline>''), Received ''\<newline>'',
       Called (Read_until ''>>> ''), Issued ''interrupt'', Received ''1\<newline>>>> '',
       Consumer ''1\<newline>'' ''stdout''] = []"
proof -
  have run: "execute_with_consumer [CHR 0x04] ''>>> '' ''print(1)''
     \<lparr>connection = [Returns ''=== '' [], Returns ''print(1)#uuu'' [], Returns ''\<newline>'' [],
                    Returns ''1\<newline>>>> '' [''interrupt'']],
      command_queue = [''input''], original_welcome_text = []\<rparr>
   = (Done,
      [Written PASTE_MODE_CMD, Called (Read_until PASTE_MODE_LINE_PREFIX), Received ''=== '',
       Written ''print(1)#uuu'', Called (Read_until ''#uuu''), Received ''print(1)#uuu'',
       Written [CHR 0x04], Called (Read_until ''\<newline>''), Received ''\<newline>'',
       Called (Read_until ''>>> ''), Issued ''interrupt'', Received ''1\<newline>>>> '',
       Consumer ''1\<newline>'' ''stdout''],
      \<lparr>connection = [], command_queue = [''input'', ''interrupt''], original_welcome_text = []\<rparr>)"
    by (simp add: exec_defs without_last_def)
  from output_collected_by_one_blocking_read[OF run] run show ?thesis by simp
qed

text \<open>
  The claim as stated fails: with a request queued and a device that stays silent after
  the acknowledgement, the function is blocked in \<^verbatim>\<open>read_until\<close>; no soft read was
  made and the request is still in the queue.
\<close>

theorem execute_never_checks_side_commands:
  "execute_with_consumer [CHR 0x04] ''>>> '' ''print(1)''
     \<lparr>connection = [Returns ''=== '' [], Returns ''print(1)#uuu'' [], Returns ''\<newline>'' []],
      command_queue = [''interrupt''], original_welcome_text = []\<rparr>
   = (Blocked,
      [Written PASTE_MODE_CMD, Called (Read_until PASTE_MODE_LINE_PREFIX), Received ''=== '',
       Written ''print(1)#uuu'', Called (Read_until ''#uuu''), Received ''print(1)#uuu'',
       Written [CHR 0x04], Called (Read_until ''\<newline>''), Received ''\<newline>'',
       Called (Read_until ''>>> '')],
      \<lparr>connection = [], command_queue = [''interrupt''], original_welcome_text = []\<rparr>)"
  by (simp add: exec_defs)

section \<open>Attaching and running\<close>




end
